theory Spec2Isabelle
  imports Complex_Main "HOL-Library.Product_Lexorder"
begin

section \<open>Column detection of multi_column.py\<close>

text \<open>
  A shallow embedding of \<^verbatim>\<open>column_boxes\<close> from
  \<^verbatim>\<open>src/Version_2_Name_Entity_Recognition/multi_column.py\<close>: candidate filtering,
  right extension, column merging and the final cleaning, with the nested helpers
  \<^verbatim>\<open>can_extend\<close>, \<^verbatim>\<open>in_bbox\<close>, \<^verbatim>\<open>intersects_bboxes\<close>, \<^verbatim>\<open>extend_right\<close> and
  \<^verbatim>\<open>clean_nblocks\<close>. Python exceptions are values of type \<open>error\<close>; a function that can
  raise returns \<open>error + 'a\<close> with \<open>Inl\<close> for the exception.
\<close>

subsection \<open>Exceptions\<close>

datatype error = KeyError string | IndexError

subsection \<open>Rectangles\<close>

text \<open>
  Modelled from the spec: the rectangle type \<^verbatim>\<open>fitz.IRect\<close> and its operators
  (\<^verbatim>\<open>&\<close>, \<^verbatim>\<open>|\<close>, \<^verbatim>\<open>in\<close>, \<^verbatim>\<open>is_empty\<close>, \<^verbatim>\<open>==\<close>, \<^verbatim>\<open>EMPTY_IRECT\<close>) come from the
  imported library and are not among the sources. The spec's data model gives an
  axis-aligned rectangle \<open>(x0, y0, x1, y1)\<close> that may be empty as a sentinel, with union
  (smallest rectangle containing both), intersection, containment (the corners of the inner
  rectangle lie within the outer one), an emptiness test, equality by value and a width,
  which is never negative. Coordinates
  are integers, as for \<^verbatim>\<open>IRect\<close>; image rectangles are taken with integer coordinates
  too. An empty operand is a sentinel: it is neutral for union and absorbing for
  intersection. The library's infinite rectangle is left out.
\<close>

record rect =
  x0 :: int
  y0 :: int
  x1 :: int
  y1 :: int

definition is_empty :: "rect \<Rightarrow> bool" where
  "is_empty r = (x1 r \<le> x0 r \<or> y1 r \<le> y0 r)"

definition EMPTY_IRECT :: rect where
  "EMPTY_IRECT = \<lparr>x0 = 2147483520, y0 = 2147483520, x1 = - 2147483648, y1 = - 2147483648\<rparr>"

definition rect_and :: "rect \<Rightarrow> rect \<Rightarrow> rect" where
  "rect_and a b =
     (if is_empty b then b
      else if is_empty a then a
      else \<lparr>x0 = max (x0 a) (x0 b), y0 = max (y0 a) (y0 b),
            x1 = min (x1 a) (x1 b), y1 = min (y1 a) (y1 b)\<rparr>)"

definition rect_or :: "rect \<Rightarrow> rect \<Rightarrow> rect" where
  "rect_or a b =
     (if is_empty b then a
      else if is_empty a then b
      else \<lparr>x0 = min (x0 a) (x0 b), y0 = min (y0 a) (y0 b),
            x1 = max (x1 a) (x1 b), y1 = max (y1 a) (y1 b)\<rparr>)"

definition rect_width :: "rect \<Rightarrow> int" where
  "rect_width r = max 0 (x1 r - x0 r)"

definition rect_in :: "rect \<Rightarrow> rect \<Rightarrow> bool" where
  "rect_in bb bbox =
     (x0 bbox \<le> x0 bb \<and> x0 bb \<le> x1 bb \<and> x1 bb \<le> x1 bbox \<and>
      y0 bbox \<le> y0 bb \<and> y0 bb \<le> y1 bb \<and> y1 bb \<le> y1 bbox)"

subsection \<open>Input of the extraction collaborator\<close>

text \<open>
  The dictionaries returned by \<^verbatim>\<open>page.get_text("dict", ...)\<close>; the text of a span is a
  Python string, the list of its code points. The keys \<^verbatim>\<open>"lines"\<close> of a
  block and \<^verbatim>\<open>"spans"\<close> of a line may be missing (\<open>None\<close>); \<^verbatim>\<open>"bbox"\<close>, \<^verbatim>\<open>"dir"\<close> and
  \<^verbatim>\<open>"text"\<close> are always delivered. A bounding box is the value of \<^verbatim>\<open>fitz.IRect(d["bbox"])\<close>.
  A page gives its rectangle, for each entry of \<^verbatim>\<open>get_images()\<close> the rectangles of
  \<^verbatim>\<open>get_image_rects\<close>, and the blocks that \<^verbatim>\<open>get_text\<close> returns for a clip rectangle.
\<close>

type_synonym py_str = "int list"

record text_span =
  s_text :: py_str

record text_line =
  l_dir :: "real \<times> real"
  l_bbox :: rect
  l_spans :: "text_span list option"

record text_block =
  b_bbox :: rect
  b_lines :: "text_line list option"

record page =
  p_rect :: rect
  get_image_rects :: "rect list list"
  get_text :: "rect \<Rightarrow> text_block list"

definition getitem :: "string \<Rightarrow> 'a option \<Rightarrow> error + 'a" where
  "getitem k v = (case v of None \<Rightarrow> Inl (KeyError k) | Some a \<Rightarrow> Inr a)"

text \<open>
  Modelled from the spec: \<^verbatim>\<open>str.strip()\<close> and \<^verbatim>\<open>len\<close> belong to Python and are not
  among the sources; the spec speaks of whitespace-stripped text and of its length in
  characters. A string is the list of its Unicode code points, and whitespace is what
  \<^verbatim>\<open>str.isspace\<close> takes as such: the code points 9 to 13, 28 to 32, U+0085, U+00A0, U+1680,
  U+2000 to U+200A, U+2028, U+2029, U+202F, U+205F and U+3000.
\<close>

definition isspace :: "int \<Rightarrow> bool" where
  "isspace c =
     (c \<in> {9, 10, 11, 12, 13, 28, 29, 30, 31, 32, 133, 160, 5760, 8232, 8233, 8239, 8287, 12288}
      \<or> (8192 \<le> c \<and> c \<le> 8202))"

definition strip :: "py_str \<Rightarrow> py_str" where
  "strip s = rev (dropWhile isspace (rev (dropWhile isspace s)))"

subsection \<open>The helpers of column_boxes\<close>

fun in_bbox :: "rect \<Rightarrow> rect list \<Rightarrow> bool" where
  "in_bbox bb [] = False"
| "in_bbox bb (bbox # bboxes) = (if rect_in bb bbox then True else in_bbox bb bboxes)"

fun intersects_bboxes :: "rect \<Rightarrow> rect list \<Rightarrow> bool" where
  "intersects_bboxes bb [] = False"
| "intersects_bboxes bb (bbox # bboxes) =
     (if \<not> is_empty (rect_and bb bbox) then True else intersects_bboxes bb bboxes)"

text \<open>
  \<^verbatim>\<open>can_extend\<close> reads the enclosing \<^verbatim>\<open>vert_bboxes\<close>, here its first argument. An entry of
  \<^verbatim>\<open>bboxlist\<close> is a rectangle or \<^verbatim>\<open>None\<close>.
\<close>

fun can_extend :: "rect list \<Rightarrow> rect \<Rightarrow> rect \<Rightarrow> rect option list \<Rightarrow> bool" where
  "can_extend vert_bboxes temp bb [] = True"
| "can_extend vert_bboxes temp bb (b # bboxlist) =
     (if \<not> intersects_bboxes temp vert_bboxes \<and>
         (case b of None \<Rightarrow> True | Some r \<Rightarrow> r = bb \<or> is_empty (rect_and temp r))
      then can_extend vert_bboxes temp bb bboxlist
      else False)"

text \<open>
  \<^verbatim>\<open>extend_right\<close>: the loop over \<^verbatim>\<open>enumerate(bboxes)\<close> is a recursion on the index, the
  list being updated in place. No entry is \<^verbatim>\<open>None\<close> here, so the closing comprehension
  keeps every entry.
\<close>

function extend_right_loop ::
  "nat \<Rightarrow> rect list \<Rightarrow> int \<Rightarrow> rect list \<Rightarrow> rect list \<Rightarrow> rect list" where
  "extend_right_loop i bboxes width vert_bboxes img_bboxes =
     (if i < length bboxes then
        (let bb = bboxes ! i in
         if in_bbox bb img_bboxes then
           extend_right_loop (Suc i) bboxes width vert_bboxes img_bboxes
         else
           (let temp = bb\<lparr>x1 := width\<rparr> in
            if intersects_bboxes temp (vert_bboxes @ img_bboxes) then
              extend_right_loop (Suc i) bboxes width vert_bboxes img_bboxes
            else if can_extend vert_bboxes temp bb (map Some bboxes) then
              extend_right_loop (Suc i) (bboxes[i := temp]) width vert_bboxes img_bboxes
            else
              extend_right_loop (Suc i) bboxes width vert_bboxes img_bboxes))
      else bboxes)"
  by pat_completeness auto
termination
  by (relation "measure (\<lambda>(i, bboxes, width, vert_bboxes, img_bboxes). length bboxes - i)") auto

definition extend_right :: "rect list \<Rightarrow> int \<Rightarrow> rect list \<Rightarrow> rect list \<Rightarrow> rect list" where
  "extend_right bboxes width vert_bboxes img_bboxes =
     extend_right_loop 0 bboxes width vert_bboxes img_bboxes"

subsection \<open>clean_nblocks\<close>

text \<open>
  Python list indexing: a negative index counts from the end, an index out of range raises
  \<^verbatim>\<open>IndexError\<close>.
\<close>

definition py_get :: "'a list \<Rightarrow> int \<Rightarrow> error + 'a" where
  "py_get xs i =
     (if 0 \<le> i \<and> i < int (length xs) then Inr (xs ! nat i)
      else if i < 0 \<and> - int (length xs) \<le> i then Inr (xs ! nat (int (length xs) + i))
      else Inl IndexError)"

definition py_del :: "'a list \<Rightarrow> nat \<Rightarrow> 'a list" where
  "py_del xs i = take i xs @ drop (Suc i) xs"

text \<open>
  Step 1, the loop \<^verbatim>\<open>for i in range(start, -1, -1)\<close>: the first argument is the list of
  the indices still to visit.
\<close>

fun remove_duplicates :: "nat list \<Rightarrow> rect list \<Rightarrow> error + rect list" where
  "remove_duplicates [] nblocks = Inr nblocks"
| "remove_duplicates (i # is) nblocks =
     (case py_get nblocks (int i) of Inl e \<Rightarrow> Inl e | Inr bb1 \<Rightarrow>
      (case py_get nblocks (int i - 1) of Inl e \<Rightarrow> Inl e | Inr bb0 \<Rightarrow>
         if bb0 = bb1 then remove_duplicates is (py_del nblocks i)
         else remove_duplicates is nblocks))"

text \<open>
  Step 2: \<^verbatim>\<open>nblocks[i0 : i1 + 1] = sorted(nblocks[i0 : i1 + 1], key=lambda b: b.x0)\<close>, used
  only with \<open>i0 < i1\<close>.
\<close>

definition sort_slice :: "rect list \<Rightarrow> nat \<Rightarrow> nat \<Rightarrow> rect list" where
  "sort_slice nblocks i0 i1 =
     take i0 nblocks @ sort_key x0 (take (Suc i1 - i0) (drop i0 nblocks)) @ drop (Suc i1) nblocks"

function repair_loop :: "nat \<Rightarrow> rect list \<Rightarrow> int \<Rightarrow> nat \<Rightarrow> int \<Rightarrow> rect list \<times> nat \<times> int" where
  "repair_loop i nblocks y i0 i1 =
     (if i < length nblocks then
        (let b1 = nblocks ! i in
         if \<bar>y1 b1 - y\<bar> > 10 then
           repair_loop (Suc i)
             (if i1 > int i0 then sort_slice nblocks i0 (nat i1) else nblocks)
             (y1 b1) i (int i)
         else repair_loop (Suc i) nblocks y i0 (int i))
      else (nblocks, i0, i1))"
  by pat_completeness auto
termination
  by (relation "measure (\<lambda>(i, nblocks, y, i0, i1). length nblocks - i)")
     (auto simp: sort_slice_def min_def)

definition repair_sequence :: "rect list \<Rightarrow> error + rect list" where
  "repair_sequence nblocks =
     (case py_get nblocks 0 of Inl e \<Rightarrow> Inl e | Inr b \<Rightarrow>
        (case repair_loop 1 nblocks (y1 b) 0 (- 1) of (nblocks', i0, i1) \<Rightarrow>
           Inr (if i1 > int i0 then sort_slice nblocks' i0 (nat i1) else nblocks')))"

definition clean_nblocks :: "rect list \<Rightarrow> error + rect list" where
  "clean_nblocks nblocks =
     (let blen = length nblocks in
      if blen < 2 then Inr nblocks
      else (case remove_duplicates (rev [0..<blen]) nblocks of Inl e \<Rightarrow> Inl e
            | Inr nblocks' \<Rightarrow> repair_sequence nblocks'))"

subsection \<open>Candidate filtering\<close>

fun join_stripped :: "text_span list \<Rightarrow> py_str" where
  "join_stripped [] = []"
| "join_stripped (s # spans) = strip (s_text s) @ join_stripped spans"

text \<open>The loop of lines 146 to 150, from the current \<^verbatim>\<open>srect\<close>.\<close>

fun build_srect :: "rect \<Rightarrow> text_line list \<Rightarrow> error + rect" where
  "build_srect srect [] = Inr srect"
| "build_srect srect (line # lns) =
     (let lbbox = l_bbox line in
      case getitem ''spans'' (l_spans line) of Inl e \<Rightarrow> Inl e | Inr spans \<Rightarrow>
        (let text = join_stripped spans in
         build_srect (if length text > 1 then rect_or srect lbbox else srect) lns))"

text \<open>The body of the \<^verbatim>\<open>try\<close>: \<^verbatim>\<open>b["lines"][0]["dir"]\<close>.\<close>

definition first_line_dir :: "text_block \<Rightarrow> error + real \<times> real" where
  "first_line_dir b =
     (case getitem ''lines'' (b_lines b) of Inl e \<Rightarrow> Inl e | Inr lns \<Rightarrow>
        (case py_get lns 0 of Inl e \<Rightarrow> Inl e | Inr line0 \<Rightarrow> Inr (l_dir line0)))"

text \<open>
  One pass of the loop over the blocks (lines 128 to 154); the state is the pair of
  \<^verbatim>\<open>bboxes\<close> and \<^verbatim>\<open>vert_bboxes\<close>. Only \<^verbatim>\<open>IndexError\<close> is caught.
\<close>

definition make_block ::
  "bool \<Rightarrow> rect list \<Rightarrow> text_block \<Rightarrow> rect list \<times> rect list \<Rightarrow> error + rect list \<times> rect list" where
  "make_block no_image_text img_bboxes b st =
     (case st of (bboxes, vert_bboxes) \<Rightarrow>
        (let bbox = b_bbox b in
         if no_image_text \<and> in_bbox bbox img_bboxes then Inr st
         else
           (case first_line_dir b of
              Inl IndexError \<Rightarrow> Inr st
            | Inl (KeyError k) \<Rightarrow> Inl (KeyError k)
            | Inr d \<Rightarrow>
                if d \<noteq> (1, 0) then Inr (bboxes, vert_bboxes @ [bbox])
                else
                  (case getitem ''lines'' (b_lines b) of Inl e \<Rightarrow> Inl e | Inr lns \<Rightarrow>
                     (case build_srect EMPTY_IRECT lns of Inl e \<Rightarrow> Inl e | Inr srect \<Rightarrow>
                        if \<not> is_empty srect then Inr (bboxes @ [srect], vert_bboxes)
                        else Inr st)))))"

fun make_blocks ::
  "bool \<Rightarrow> rect list \<Rightarrow> text_block list \<Rightarrow> rect list \<times> rect list \<Rightarrow> error + rect list \<times> rect list" where
  "make_blocks no_image_text img_bboxes [] st = Inr st"
| "make_blocks no_image_text img_bboxes (b # blocks) st =
     (case make_block no_image_text img_bboxes b st of Inl e \<Rightarrow> Inl e
      | Inr st' \<Rightarrow> make_blocks no_image_text img_bboxes blocks st')"

subsection \<open>Column merging\<close>

text \<open>
  The inner loop \<^verbatim>\<open>for j in range(len(nblocks))\<close> (lines 178 to 190): the result is the
  index and the union at which the loop breaks, or \<open>None\<close> when \<^verbatim>\<open>check\<close> is false at its
  end.
\<close>

fun find_merge :: "rect list \<Rightarrow> rect \<Rightarrow> rect list \<Rightarrow> nat list \<Rightarrow> (nat \<times> rect) option" where
  "find_merge vert_bboxes bb nblocks [] = None"
| "find_merge vert_bboxes bb nblocks (j # js) =
     (let nbb = nblocks ! j in
      if x1 nbb < x0 bb \<or> x1 bb < x0 nbb then find_merge vert_bboxes bb nblocks js
      else
        (let temp = rect_or bb nbb in
         if can_extend vert_bboxes temp nbb (map Some nblocks) then Some (j, temp)
         else find_merge vert_bboxes bb nblocks js))"

text \<open>
  One pass of the outer loop (lines 174 to 203) for the rectangle \<open>bb\<close>, the \<open>n\<close> entries
  before it being \<^verbatim>\<open>None\<close> already and \<open>rest\<close> following it. An entry becomes \<^verbatim>\<open>None\<close>
  only after its own pass, so that \<^verbatim>\<open>bb is None\<close> never holds.
\<close>

definition merge_step :: "rect list \<Rightarrow> rect list \<Rightarrow> nat \<Rightarrow> rect \<Rightarrow> rect list \<Rightarrow> rect list" where
  "merge_step vert_bboxes nblocks n bb rest =
     (let bboxes = replicate n None @ map Some (bb # rest) in
      case find_merge vert_bboxes bb nblocks [0..<length nblocks] of
        Some (j, temp) \<Rightarrow>
          if \<not> can_extend vert_bboxes temp bb bboxes then nblocks @ [bb]
          else nblocks[j := temp]
      | None \<Rightarrow>
          (let nblocks1 = nblocks @ [bb];
               j = length nblocks1 - 1;
               temp = nblocks1 ! j
           in if \<not> can_extend vert_bboxes temp bb bboxes then nblocks1 @ [bb]
              else nblocks1[j := temp]))"

fun merge_loop :: "rect list \<Rightarrow> rect list \<Rightarrow> nat \<Rightarrow> rect list \<Rightarrow> rect list" where
  "merge_loop vert_bboxes nblocks n [] = nblocks"
| "merge_loop vert_bboxes nblocks n (bb # rest) =
     merge_loop vert_bboxes (merge_step vert_bboxes nblocks n bb rest) (Suc n) rest"

subsection \<open>column_boxes\<close>

text \<open>The relevant page area (lines 22 to 24).\<close>

definition page_clip :: "page \<Rightarrow> int \<Rightarrow> int \<Rightarrow> rect" where
  "page_clip pg footer_margin header_margin =
     (let clip = p_rect pg;
          clip = clip\<lparr>y1 := y1 clip - footer_margin\<rparr>;
          clip = clip\<lparr>y0 := y0 clip + header_margin\<rparr>
      in clip)"

definition column_boxes :: "page \<Rightarrow> int \<Rightarrow> int \<Rightarrow> bool \<Rightarrow> error + rect list" where
  "column_boxes pg footer_margin header_margin no_image_text =
     (let clip = page_clip pg footer_margin header_margin;
          img_bboxes = concat (get_image_rects pg);
          blocks = get_text pg clip
      in case make_blocks no_image_text img_bboxes blocks ([], []) of Inl e \<Rightarrow> Inl e
         | Inr (bboxes, vert_bboxes) \<Rightarrow>
             (let bboxes = sort_key (\<lambda>k. (y0 k, x0 k)) bboxes;
                  bboxes = extend_right bboxes (rect_width (p_rect pg))
                             vert_bboxes img_bboxes
              in case bboxes of [] \<Rightarrow> Inr []
                 | b0 # rest \<Rightarrow> clean_nblocks (merge_loop vert_bboxes [b0] 0 rest)))"

subsection \<open>Notions of the specification\<close>

text \<open>
  Whitespace-stripped text, after the spec's words: \<open>t\<close> is the text \<open>s\<close> stripped of
  whitespace when \<open>s\<close> is \<open>t\<close> between two runs of whitespace and \<open>t\<close> neither begins nor
  ends with whitespace. \<open>whitespace_stripped\<close> computes it, first at the front and then at
  the back.
\<close>

inductive stripped_of :: "py_str \<Rightarrow> py_str \<Rightarrow> bool" where
  "\<forall>c\<in>set pre. isspace c \<Longrightarrow> \<forall>c\<in>set post. isspace c \<Longrightarrow>
   (t \<noteq> [] \<longrightarrow> \<not> isspace (hd t) \<and> \<not> isspace (last t)) \<Longrightarrow>
   stripped_of (pre @ t @ post) t"

fun strip_front :: "py_str \<Rightarrow> py_str" where
  "strip_front [] = []"
| "strip_front (c # cs) = (if isspace c then strip_front cs else c # cs)"

fun strip_back :: "py_str \<Rightarrow> py_str" where
  "strip_back [] = []"
| "strip_back (c # cs) = (if strip_back cs = [] \<and> isspace c then [] else c # strip_back cs)"

definition whitespace_stripped :: "py_str \<Rightarrow> py_str" where
  "whitespace_stripped s = strip_back (strip_front s)"

text \<open>
  The lines of a block that count for its effective rectangle, after the spec's words: those
  whose concatenated, whitespace-stripped text is longer than one character.
\<close>

definition qualifying_lines :: "text_line list \<Rightarrow> text_line list" where
  "qualifying_lines lns =
     filter (\<lambda>line. case l_spans line of None \<Rightarrow> False
               | Some spans \<Rightarrow>
                   1 < length (concat (map (\<lambda>s. whitespace_stripped (s_text s)) spans))) lns"

definition union_of_rects :: "rect list \<Rightarrow> rect" where
  "union_of_rects rs = foldl rect_or EMPTY_IRECT rs"

text \<open>
  The rectangles that can be built from the input rectangles by unions whose two operands
  overlap horizontally: a column rectangle \<open>nbb\<close> already built and an input rectangle \<open>bb\<close>
  with neither \<open>nbb.x1 < bb.x0\<close> nor \<open>bb.x1 < nbb.x0\<close>.
\<close>

inductive built :: "rect list \<Rightarrow> rect \<Rightarrow> bool" for inputs :: "rect list" where
  input: "b \<in> set inputs \<Longrightarrow> built inputs b"
| union: "built inputs nbb \<Longrightarrow> bb \<in> set inputs \<Longrightarrow> \<not> (x1 nbb < x0 bb \<or> x1 bb < x0 nbb) \<Longrightarrow>
          built inputs (rect_or bb nbb)"

text \<open>
  The rows of the cleaning step, after the spec's words: consecutive rectangles are one row
  as long as their bottom differs by at most 10 from the bottom of the row's first
  rectangle; \<open>rows_from y row bs\<close> continues the row \<open>row\<close>, whose first bottom is \<open>y\<close>.
\<close>

fun rows_from :: "int \<Rightarrow> rect list \<Rightarrow> rect list \<Rightarrow> rect list list" where
  "rows_from y row [] = [row]"
| "rows_from y row (b # bs) =
     (if \<bar>y1 b - y\<bar> > 10 then row # rows_from (y1 b) [b] bs
      else rows_from y (row @ [b]) bs)"

definition rows :: "rect list \<Rightarrow> rect list list" where
  "rows nblocks = (case nblocks of [] \<Rightarrow> [] | b # bs \<Rightarrow> rows_from (y1 b) [b] bs)"

subsection \<open>Example inputs\<close>

text \<open>
  A line with one span whose text is given in ASCII, a block with one line that fills it,
  and a page at the origin whose extraction returns the same blocks for every clip
  rectangle.
\<close>

definition mk_line :: "real \<times> real \<Rightarrow> rect \<Rightarrow> string \<Rightarrow> text_line" where
  "mk_line d r t = \<lparr>l_dir = d, l_bbox = r, l_spans = Some [\<lparr>s_text = map of_char t\<rparr>]\<rparr>"

definition mk_block :: "real \<times> real \<Rightarrow> rect \<Rightarrow> string \<Rightarrow> text_block" where
  "mk_block d r t = \<lparr>b_bbox = r, b_lines = Some [mk_line d r t]\<rparr>"

definition mk_rect :: "int \<Rightarrow> int \<Rightarrow> int \<Rightarrow> int \<Rightarrow> rect" where
  "mk_rect a b c d = \<lparr>x0 = a, y0 = b, x1 = c, y1 = d\<rparr>"

definition mk_page :: "int \<Rightarrow> int \<Rightarrow> rect list list \<Rightarrow> text_block list \<Rightarrow> page" where
  "mk_page w h images blocks =
     \<lparr>p_rect = mk_rect 0 0 w h, get_image_rects = images, get_text = (\<lambda>clip. blocks)\<rparr>"

section \<open>Properties\<close>

declare extend_right_loop.simps [simp del]

declare repair_loop.simps [simp del]

subsection \<open>Obstacle tests\<close>

lemma intersects_bboxes_iff:
  "intersects_bboxes bb bboxes \<longleftrightarrow> (\<exists>bbox\<in>set bboxes. \<not> is_empty (rect_and bb bbox))"
  by (induction bboxes) auto

lemma intersects_bboxes_append:
  "intersects_bboxes bb (xs @ ys) \<longleftrightarrow> intersects_bboxes bb xs \<or> intersects_bboxes bb ys"
  by (auto simp: intersects_bboxes_iff)

lemma can_extend_char:
  "can_extend vert temp bb bboxlist \<longleftrightarrow>
     bboxlist = [] \<or>
     (\<not> intersects_bboxes temp vert \<and>
      (\<forall>b\<in>set bboxlist. case b of None \<Rightarrow> True | Some r \<Rightarrow> r = bb \<or> is_empty (rect_and temp r)))"
  by (induction bboxlist) (auto split: option.splits)

text \<open>
  C1, as the code has it: \<^verbatim>\<open>can_extend\<close> accepts a candidate \<open>temp\<close> exactly when the tracked
  list is empty, or \<open>temp\<close> intersects no vertical-text rectangle and every tracked entry is
  \<^verbatim>\<open>None\<close>, equals the rectangle \<open>bb\<close> being extended, or has an empty intersection with
  \<open>temp\<close>. A candidate that intersects a vertical-text rectangle is rejected for every
  non-empty list.
\<close>

theorem can_extend_iff:
  "can_extend vert temp bb bboxlist \<longleftrightarrow>
     bboxlist = [] \<or>
     (\<not> intersects_bboxes temp vert \<and>
      (\<forall>b\<in>set bboxlist. b = None \<or> b = Some bb \<or>
          (\<exists>r. b = Some r \<and> is_empty (rect_and temp r))))"
  unfolding can_extend_char by (auto split: option.splits)

theorem can_extend_iff_witness:
  "can_extend [] \<lparr>x0 = 0, y0 = 0, x1 = 400, y1 = 10\<rparr> \<lparr>x0 = 0, y0 = 0, x1 = 100, y1 = 10\<rparr>
     [None, Some \<lparr>x0 = 0, y0 = 0, x1 = 100, y1 = 10\<rparr>, Some \<lparr>x0 = 0, y0 = 20, x1 = 100, y1 = 30\<rparr>]
   \<and> \<not> can_extend [\<lparr>x0 = 50, y0 = 0, x1 = 60, y1 = 10\<rparr>] \<lparr>x0 = 0, y0 = 0, x1 = 400, y1 = 10\<rparr>
         \<lparr>x0 = 0, y0 = 0, x1 = 100, y1 = 10\<rparr> [None]"
  using can_extend_iff [of "[]" "\<lparr>x0 = 0, y0 = 0, x1 = 400, y1 = 10\<rparr>" "\<lparr>x0 = 0, y0 = 0, x1 = 100, y1 = 10\<rparr>"
     "[None, Some \<lparr>x0 = 0, y0 = 0, x1 = 100, y1 = 10\<rparr>, Some \<lparr>x0 = 0, y0 = 20, x1 = 100, y1 = 30\<rparr>]"]
    can_extend_iff [of "[\<lparr>x0 = 50, y0 = 0, x1 = 60, y1 = 10\<rparr>]" "\<lparr>x0 = 0, y0 = 0, x1 = 400, y1 = 10\<rparr>"
         "\<lparr>x0 = 0, y0 = 0, x1 = 100, y1 = 10\<rparr>" "[None]"]
  by (simp add: rect_and_def is_empty_def)

text \<open>
  The candidate \<open>(0, 0, 400, 10)\<close> intersects the vertical-text rectangle \<open>(50, 0, 60, 10)\<close>, the
  tracked list holds the rectangle being extended, and the test rejects the candidate.
\<close>

theorem can_extend_escape_counterexample:
  "intersects_bboxes \<lparr>x0 = 0, y0 = 0, x1 = 400, y1 = 10\<rparr> [\<lparr>x0 = 50, y0 = 0, x1 = 60, y1 = 10\<rparr>]
   \<and> [Some \<lparr>x0 = 0, y0 = 0, x1 = 100, y1 = 10\<rparr>] \<noteq> []
   \<and> \<not> can_extend [\<lparr>x0 = 50, y0 = 0, x1 = 60, y1 = 10\<rparr>] \<lparr>x0 = 0, y0 = 0, x1 = 400, y1 = 10\<rparr>
         \<lparr>x0 = 0, y0 = 0, x1 = 100, y1 = 10\<rparr> [Some \<lparr>x0 = 0, y0 = 0, x1 = 100, y1 = 10\<rparr>]"
  by (simp add: rect_and_def is_empty_def)

subsection \<open>Right extension\<close>

lemma extend_right_loop_frame:
  "length (extend_right_loop i bboxes width vert img) = length bboxes \<and>
   (\<forall>k<length bboxes.
      extend_right_loop i bboxes width vert img ! k = bboxes ! k \<or>
      (extend_right_loop i bboxes width vert img ! k = (bboxes ! k)\<lparr>x1 := width\<rparr> \<and>
       \<not> intersects_bboxes (extend_right_loop i bboxes width vert img ! k) (vert @ img)))"
proof (induction i bboxes width vert img rule: extend_right_loop.induct)
  case (1 i bboxes width vert img)
  show ?case
  proof (cases "i < length bboxes")
    case False
    then show ?thesis by (simp add: extend_right_loop.simps [of i bboxes])
  next
    case True
    define bb where "bb = bboxes ! i"
    define temp where "temp = bb\<lparr>x1 := width\<rparr>"
    show ?thesis
    proof (cases "\<not> in_bbox bb img \<and> \<not> intersects_bboxes temp (vert @ img) \<and>
                  can_extend vert temp bb (map Some bboxes)")
      case False
      then have eq: "extend_right_loop i bboxes width vert img =
                 extend_right_loop (Suc i) bboxes width vert img"
        using True by (auto simp: extend_right_loop.simps [of i bboxes] bb_def temp_def Let_def)
      have "\<not> in_bbox bb img \<Longrightarrow>
              intersects_bboxes temp (vert @ img) \<or> \<not> can_extend vert temp bb (map Some bboxes)"
        using False by blast
      then show ?thesis
        unfolding eq using "1.IH"(1)[OF True bb_def] "1.IH"(2)[OF True bb_def _ temp_def]
          "1.IH"(4)[OF True bb_def _ temp_def]
        by blast
    next
      case ext: True
      let ?upd = "bboxes[i := temp]"
      let ?res = "extend_right_loop (Suc i) ?upd width vert img"
      from ext have eq: "extend_right_loop i bboxes width vert img = ?res"
        using True by (auto simp: extend_right_loop.simps [of i bboxes] bb_def temp_def Let_def)
      from ext have ih: "length ?res = length ?upd \<and>
         (\<forall>k<length ?upd. ?res ! k = ?upd ! k \<or>
            (?res ! k = (?upd ! k)\<lparr>x1 := width\<rparr> \<and> \<not> intersects_bboxes (?res ! k) (vert @ img)))"
        using "1.IH"(3)[OF True bb_def _ temp_def] by blast
      show ?thesis
        unfolding eq
      proof (intro conjI allI impI)
        show "length ?res = length bboxes"
          using ih by simp
      next
        fix k assume k: "k < length bboxes"
        show "?res ! k = bboxes ! k \<or>
              (?res ! k = (bboxes ! k)\<lparr>x1 := width\<rparr> \<and> \<not> intersects_bboxes (?res ! k) (vert @ img))"
        proof (cases "k = i")
          case False
          then show ?thesis using ih k by auto
        next
          case True
          have "?res ! k = temp" using ih k True by (auto simp: temp_def)
          then show ?thesis using ext True by (simp add: temp_def bb_def)
        qed
      qed
    qed
  qed
qed

text \<open>
  C7: \<^verbatim>\<open>extend_right\<close> returns a list of the same length in which every entry is the entry
  of the input at the same position, unchanged or with only \<open>x1\<close> set to the page width.
\<close>

theorem extend_right_in_place:
  "length (extend_right bboxes width vert img) = length bboxes \<and>
   (\<forall>k<length bboxes.
      extend_right bboxes width vert img ! k = bboxes ! k \<or>
      extend_right bboxes width vert img ! k = (bboxes ! k)\<lparr>x1 := width\<rparr>)"
  unfolding extend_right_def using extend_right_loop_frame [of 0 bboxes width vert img] by blast

theorem extend_right_in_place_witness:
  "(1::nat) < length [\<lparr>x0 = 0, y0 = 0, x1 = 100, y1 = 100\<rparr>, \<lparr>x0 = 150, y0 = 0, x1 = 300, y1 = 100\<rparr>] \<and>
   extend_right [\<lparr>x0 = 0, y0 = 0, x1 = 100, y1 = 100\<rparr>, \<lparr>x0 = 150, y0 = 0, x1 = 300, y1 = 100\<rparr>]
      400 [] [] =
     [\<lparr>x0 = 0, y0 = 0, x1 = 100, y1 = 100\<rparr>, \<lparr>x0 = 150, y0 = 0, x1 = 300, y1 = 100\<rparr>\<lparr>x1 := 400\<rparr>]"
proof -
  have e: "extend_right [\<lparr>x0 = 0, y0 = 0, x1 = 100, y1 = 100\<rparr>, \<lparr>x0 = 150, y0 = 0, x1 = 300, y1 = 100\<rparr>]
      400 [] [] =
     [\<lparr>x0 = 0, y0 = 0, x1 = 100, y1 = 100\<rparr>, \<lparr>x0 = 150, y0 = 0, x1 = 400, y1 = 100\<rparr>]"
    by code_simp
  show ?thesis
    using extend_right_in_place [of
        "[\<lparr>x0 = 0, y0 = 0, x1 = 100, y1 = 100\<rparr>, \<lparr>x0 = 150, y0 = 0, x1 = 300, y1 = 100\<rparr>]" 400 "[]" "[]"] e
    by simp
qed

subsection \<open>Candidate filtering\<close>

lemma strip_front_dropWhile: "strip_front s = dropWhile isspace s"
  by (induction s) auto

lemma strip_back_Nil_iff: "strip_back s = [] \<longleftrightarrow> (\<forall>c\<in>set s. isspace c)"
  by (induction s) auto

lemma strip_back_rev: "strip_back s = rev (dropWhile isspace (rev s))"
proof (induction s)
  case Nil
  then show ?case by simp
next
  case (Cons c cs)
  show ?case
  proof (cases "\<forall>x\<in>set cs. isspace x")
    case True
    then have "dropWhile isspace (rev cs @ [c]) = dropWhile isspace [c]"
      by (simp add: dropWhile_append)
    then show ?thesis using True by (simp add: strip_back_Nil_iff)
  next
    case False
    then have "dropWhile isspace (rev cs @ [c]) = dropWhile isspace (rev cs) @ [c]"
      by (auto simp: dropWhile_append)
    then show ?thesis using False Cons.IH by (auto simp: strip_back_Nil_iff)
  qed
qed

lemma strip_whitespace_stripped: "strip s = whitespace_stripped s"
  by (simp add: strip_def whitespace_stripped_def strip_front_dropWhile strip_back_rev)

lemma strip_front_decomp:
  "\<exists>pre. s = pre @ strip_front s \<and> (\<forall>c\<in>set pre. isspace c)"
proof (induction s)
  case Nil
  then show ?case by simp
next
  case (Cons c cs)
  show ?case
  proof (cases "isspace c")
    case True
    from Cons.IH obtain pre where "cs = pre @ strip_front cs" "\<forall>c\<in>set pre. isspace c" by blast
    then have "c # cs = (c # pre) @ strip_front (c # cs) \<and> (\<forall>x\<in>set (c # pre). isspace x)"
      using True by simp
    then show ?thesis by blast
  next
    case False
    then have "c # cs = [] @ strip_front (c # cs) \<and> (\<forall>x\<in>set []. isspace x)" by simp
    then show ?thesis by blast
  qed
qed

lemma strip_back_decomp:
  "\<exists>post. s = strip_back s @ post \<and> (\<forall>c\<in>set post. isspace c)"
proof (induction s)
  case Nil
  then show ?case by simp
next
  case (Cons c cs)
  from Cons.IH obtain post where p: "cs = strip_back cs @ post" "\<forall>c\<in>set post. isspace c" by blast
  show ?case
  proof (cases "strip_back cs = [] \<and> isspace c")
    case True
    then have "c # cs = strip_back (c # cs) @ (c # post) \<and> (\<forall>x\<in>set (c # post). isspace x)"
      using p by simp
    then show ?thesis by blast
  next
    case False
    then have "c # cs = strip_back (c # cs) @ post" using p by auto
    then show ?thesis using p(2) by blast
  qed
qed

lemma strip_front_hd: "strip_front s \<noteq> [] \<Longrightarrow> \<not> isspace (hd (strip_front s))"
  by (induction s) (auto split: if_splits)

lemma strip_back_hd: "strip_back s \<noteq> [] \<Longrightarrow> hd (strip_back s) = hd s"
  by (cases s) (auto split: if_splits)

lemma strip_back_last: "strip_back s \<noteq> [] \<Longrightarrow> \<not> isspace (last (strip_back s))"
  by (induction s) (auto split: if_splits)

lemma stripped_of_whitespace_stripped: "stripped_of s (whitespace_stripped s)"
proof -
  let ?t = "whitespace_stripped s"
  obtain pre where pre: "s = pre @ strip_front s" "\<forall>c\<in>set pre. isspace c"
    using strip_front_decomp by blast
  obtain post where post: "strip_front s = ?t @ post" "\<forall>c\<in>set post. isspace c"
    using strip_back_decomp [of "strip_front s"] by (auto simp: whitespace_stripped_def)
  have ends: "?t \<noteq> [] \<longrightarrow> \<not> isspace (hd ?t) \<and> \<not> isspace (last ?t)"
  proof
    assume ne: "?t \<noteq> []"
    then have f: "strip_front s \<noteq> []" by (auto simp: whitespace_stripped_def)
    have "hd ?t = hd (strip_front s)"
      using ne strip_back_hd [of "strip_front s"] by (simp add: whitespace_stripped_def)
    then show "\<not> isspace (hd ?t) \<and> \<not> isspace (last ?t)"
      using strip_front_hd [OF f] strip_back_last [of "strip_front s"] ne
      by (simp add: whitespace_stripped_def)
  qed
  have "stripped_of (pre @ ?t @ post) ?t"
    using pre(2) post(2) ends by (rule stripped_of.intros)
  moreover have "s = pre @ ?t @ post" using pre(1) post(1) by simp
  ultimately show ?thesis by simp
qed

lemma whitespace_stripped_unique:
  assumes "stripped_of s t"
  shows "t = whitespace_stripped s"
  using assms
proof (cases rule: stripped_of.cases)
  case (1 pre post)
  show ?thesis
  proof (cases "t = []")
    case True
    then have "\<forall>c\<in>set s. isspace c" using 1 by auto
    then have "strip_front s = []" by (simp add: strip_front_dropWhile)
    then show ?thesis
      using True by (simp add: whitespace_stripped_def)
  next
    case False
    then obtain c cs where t: "t = c # cs" by (cases t) auto
    have front: "dropWhile isspace s = t @ post"
      using 1 t by (simp add: dropWhile_append)
    from False obtain ys y where ty: "t = ys @ [y]" by (cases t rule: rev_cases) auto
    have ny: "\<not> isspace y" using 1 ty by simp
    have "dropWhile isspace (rev t) = rev t" using ty ny by simp
    moreover have "\<exists>x\<in>set t. \<not> isspace x" using ty ny by auto
    ultimately have "rev (dropWhile isspace (rev (t @ post))) = t"
      using 1 by (simp add: dropWhile_append)
    then show ?thesis
      using front by (simp add: whitespace_stripped_def strip_front_dropWhile strip_back_rev)
  qed
qed

lemma join_stripped_concat:
  "join_stripped spans = concat (map (\<lambda>s. whitespace_stripped (s_text s)) spans)"
  by (induction spans) (auto simp: strip_whitespace_stripped)

lemma build_srect_foldl:
  "\<forall>line\<in>set lns. l_spans line \<noteq> None \<Longrightarrow>
   build_srect srect lns = Inr (foldl rect_or srect (map l_bbox (qualifying_lines lns)))"
proof (induction lns arbitrary: srect)
  case Nil
  then show ?case by (simp add: qualifying_lines_def)
next
  case (Cons line lns)
  from Cons.prems obtain spans where sp: "l_spans line = Some spans" by auto
  have rest: "\<forall>line\<in>set lns. l_spans line \<noteq> None" using Cons.prems by simp
  show ?case
    using Cons.IH [OF rest] sp
    by (simp add: getitem_def Let_def qualifying_lines_def join_stripped_concat)
qed

lemma is_empty_EMPTY_IRECT: "is_empty EMPTY_IRECT"
  by (simp add: is_empty_def EMPTY_IRECT_def)

text \<open>
  C5: for a block that reaches the construction of its rectangle (not skipped as text on an
  image, first line horizontal, every line with its spans), the rectangle built from the
  lines is the union of the rectangles of exactly the lines whose stripped, concatenated text
  is longer than one character; it is appended to the candidates unless it is empty; and
  when no line qualifies it is empty and the candidate list stays as it was. The text
  joined for a line is the concatenation of the whitespace-stripped texts of its spans, the
  stripped text of a span being its text without the whitespace at both ends and nothing
  else.
\<close>

theorem effective_rect_of_block:
  assumes "b_lines b = Some (line0 # lns)"
    and "l_dir line0 = (1, 0)"
    and "\<not> (no_image_text \<and> in_bbox (b_bbox b) img_bboxes)"
    and "\<forall>line\<in>set (line0 # lns). l_spans line \<noteq> None"
  shows "build_srect EMPTY_IRECT (line0 # lns) =
           Inr (union_of_rects (map l_bbox (qualifying_lines (line0 # lns)))) \<and>
         make_block no_image_text img_bboxes b (bboxes, vert_bboxes) =
           Inr (if is_empty (union_of_rects (map l_bbox (qualifying_lines (line0 # lns))))
                then bboxes
                else bboxes @ [union_of_rects (map l_bbox (qualifying_lines (line0 # lns)))],
                vert_bboxes) \<and>
         (qualifying_lines (line0 # lns) = [] \<longrightarrow>
            is_empty (union_of_rects (map l_bbox (qualifying_lines (line0 # lns)))) \<and>
            make_block no_image_text img_bboxes b (bboxes, vert_bboxes) = Inr (bboxes, vert_bboxes)) \<and>
         (\<forall>line\<in>set (line0 # lns). \<forall>spans. l_spans line = Some spans \<longrightarrow>
            join_stripped spans = concat (map (\<lambda>s. whitespace_stripped (s_text s)) spans) \<and>
            (\<forall>s\<in>set spans. \<forall>t. stripped_of (s_text s) t \<longleftrightarrow> t = whitespace_stripped (s_text s)))"
proof -
  let ?u = "union_of_rects (map l_bbox (qualifying_lines (line0 # lns)))"
  have sr: "build_srect EMPTY_IRECT (line0 # lns) = Inr ?u"
    unfolding union_of_rects_def by (rule build_srect_foldl [OF assms(4)])
  have dir: "first_line_dir b = Inr (1, 0)"
    using assms(1,2) by (simp add: first_line_dir_def getitem_def py_get_def)
  have mb: "make_block no_image_text img_bboxes b (bboxes, vert_bboxes) =
           Inr (if is_empty ?u then bboxes else bboxes @ [?u], vert_bboxes)"
    using assms(1,3) dir sr by (auto simp: make_block_def Let_def getitem_def)
  have em: "qualifying_lines (line0 # lns) = [] \<Longrightarrow> is_empty ?u"
    by (simp add: union_of_rects_def is_empty_EMPTY_IRECT)
  have st: "stripped_of s t \<longleftrightarrow> t = whitespace_stripped s" for s t
    using stripped_of_whitespace_stripped whitespace_stripped_unique by blast
  show ?thesis using sr mb em st join_stripped_concat by simp
qed

text \<open>
  A block of four lines: \<open>ab\<close>; \<open>c\<close> between two blanks; the spans \<open>x\<close> with a blank after
  it and \<open>y\<close> with U+3000 before it; and the single character U+2022. The first and the
  third line qualify, and the rectangle of the block is the union of their rectangles.
  Then Scenario E of the spec, a block whose only line carries the text \<open>a\<close>: no line
  qualifies, the block adds nothing, and \<^verbatim>\<open>column_boxes\<close> returns the empty list.
\<close>

theorem effective_rect_of_block_witness:
  "qualifying_lines
     [\<lparr>l_dir = (1, 0), l_bbox = mk_rect 10 110 100 130, l_spans = Some [\<lparr>s_text = [97, 98]\<rparr>]\<rparr>,
      \<lparr>l_dir = (1, 0), l_bbox = mk_rect 10 130 300 150, l_spans = Some [\<lparr>s_text = [32, 99, 32]\<rparr>]\<rparr>,
      \<lparr>l_dir = (1, 0), l_bbox = mk_rect 10 150 200 170,
        l_spans = Some [\<lparr>s_text = [120, 32]\<rparr>, \<lparr>s_text = [12288, 121]\<rparr>]\<rparr>,
      \<lparr>l_dir = (1, 0), l_bbox = mk_rect 0 170 350 190, l_spans = Some [\<lparr>s_text = [8226]\<rparr>]\<rparr>]
     = [\<lparr>l_dir = (1, 0), l_bbox = mk_rect 10 110 100 130, l_spans = Some [\<lparr>s_text = [97, 98]\<rparr>]\<rparr>,
        \<lparr>l_dir = (1, 0), l_bbox = mk_rect 10 150 200 170,
          l_spans = Some [\<lparr>s_text = [120, 32]\<rparr>, \<lparr>s_text = [12288, 121]\<rparr>]\<rparr>] \<and>
   make_block True []
     \<lparr>b_bbox = mk_rect 0 110 350 190,
      b_lines = Some
        [\<lparr>l_dir = (1, 0), l_bbox = mk_rect 10 110 100 130, l_spans = Some [\<lparr>s_text = [97, 98]\<rparr>]\<rparr>,
         \<lparr>l_dir = (1, 0), l_bbox = mk_rect 10 130 300 150, l_spans = Some [\<lparr>s_text = [32, 99, 32]\<rparr>]\<rparr>,
         \<lparr>l_dir = (1, 0), l_bbox = mk_rect 10 150 200 170,
           l_spans = Some [\<lparr>s_text = [120, 32]\<rparr>, \<lparr>s_text = [12288, 121]\<rparr>]\<rparr>,
         \<lparr>l_dir = (1, 0), l_bbox = mk_rect 0 170 350 190, l_spans = Some [\<lparr>s_text = [8226]\<rparr>]\<rparr>]\<rparr>
     ([], [])
     = Inr ([rect_or (mk_rect 10 110 100 130) (mk_rect 10 150 200 170)], []) \<and>
   rect_or (mk_rect 10 110 100 130) (mk_rect 10 150 200 170) = mk_rect 10 110 200 170 \<and>
   qualifying_lines [mk_line (1, 0) (mk_rect 10 110 100 130) ''a''] = [] \<and>
   make_block True [] (mk_block (1, 0) (mk_rect 10 110 100 130) ''a'') ([], []) = Inr ([], []) \<and>
   column_boxes (mk_page 200 400 [] [mk_block (1, 0) (mk_rect 10 110 100 130) ''a'']) 50 50 True
     = Inr []"
proof -
  let ?l1 = "\<lparr>l_dir = (1, 0), l_bbox = mk_rect 10 110 100 130, l_spans = Some [\<lparr>s_text = [97, 98]\<rparr>]\<rparr>"
  let ?l2 = "\<lparr>l_dir = (1, 0), l_bbox = mk_rect 10 130 300 150, l_spans = Some [\<lparr>s_text = [32, 99, 32]\<rparr>]\<rparr>"
  let ?l3 = "\<lparr>l_dir = (1, 0), l_bbox = mk_rect 10 150 200 170,
              l_spans = Some [\<lparr>s_text = [120, 32]\<rparr>, \<lparr>s_text = [12288, 121]\<rparr>]\<rparr>"
  let ?l4 = "\<lparr>l_dir = (1, 0), l_bbox = mk_rect 0 170 350 190, l_spans = Some [\<lparr>s_text = [8226]\<rparr>]\<rparr>"
  let ?b = "\<lparr>b_bbox = mk_rect 0 110 350 190, b_lines = Some [?l1, ?l2, ?l3, ?l4]\<rparr>"
  let ?e = "mk_block (1, 0) (mk_rect 10 110 100 130) ''a''"
  have q: "qualifying_lines [?l1, ?l2, ?l3, ?l4] = [?l1, ?l3]"
    by code_simp
  have u: "rect_or (mk_rect 10 110 100 130) (mk_rect 10 150 200 170) = mk_rect 10 110 200 170"
    by code_simp
  have ne: "\<not> is_empty (mk_rect 10 110 200 170)"
    by code_simp
  have un: "union_of_rects (map l_bbox [?l1, ?l3]) = mk_rect 10 110 200 170"
    by code_simp
  have qe: "qualifying_lines [mk_line (1, 0) (mk_rect 10 110 100 130) ''a''] = []"
    by code_simp
  have c: "column_boxes (mk_page 200 400 [] [?e]) 50 50 True = Inr []"
    by code_simp
  have full: "make_block True [] ?b ([], []) = Inr ([mk_rect 10 110 200 170], [])"
    using effective_rect_of_block [of ?b ?l1 "[?l2, ?l3, ?l4]" True "[]" "[]" "[]"] ne
    unfolding q un by simp
  have none: "make_block True [] ?e ([], []) = Inr ([], [])"
    using effective_rect_of_block [of ?e "mk_line (1, 0) (mk_rect 10 110 100 130) ''a''" "[]"
        True "[]" "[]" "[]"] qe
    by (simp add: mk_block_def mk_line_def)
  show ?thesis using q u full none qe c by simp
qed

text \<open>
  C9: a block whose \<^verbatim>\<open>"lines"\<close> list is empty leaves both the candidate list and the list
  of vertical-text rectangles as they were and raises nothing; the loop goes on with the
  following blocks.
\<close>

theorem empty_lines_skipped:
  "b_lines b = Some [] \<Longrightarrow>
     make_block no_image_text img_bboxes b (bboxes, vert_bboxes) = Inr (bboxes, vert_bboxes) \<and>
     make_blocks no_image_text img_bboxes (b # blocks) (bboxes, vert_bboxes) =
       make_blocks no_image_text img_bboxes blocks (bboxes, vert_bboxes)"
  by (simp add: make_block_def first_line_dir_def getitem_def py_get_def Let_def)

theorem empty_lines_skipped_witness:
  "b_lines \<lparr>b_bbox = \<lparr>x0 = 0, y0 = 0, x1 = 10, y1 = 10\<rparr>, b_lines = Some []\<rparr> = Some [] \<and>
   make_block True [] \<lparr>b_bbox = \<lparr>x0 = 0, y0 = 0, x1 = 10, y1 = 10\<rparr>, b_lines = Some []\<rparr> ([], [])
     = Inr ([], []) \<and>
   make_blocks True [] [\<lparr>b_bbox = \<lparr>x0 = 0, y0 = 0, x1 = 10, y1 = 10\<rparr>, b_lines = Some []\<rparr>] ([], [])
     = Inr ([], [])"
  using empty_lines_skipped [of "\<lparr>b_bbox = \<lparr>x0 = 0, y0 = 0, x1 = 10, y1 = 10\<rparr>, b_lines = Some []\<rparr>"
      True "[]" "[]" "[]" "[]"]
  by simp

subsection \<open>Column merging\<close>

lemma find_merge_Some:
  "find_merge vert bb nblocks js = Some (j, temp) \<Longrightarrow>
     j \<in> set js \<and> temp = rect_or bb (nblocks ! j) \<and>
     \<not> (x1 (nblocks ! j) < x0 bb \<or> x1 bb < x0 (nblocks ! j)) \<and>
     can_extend vert temp (nblocks ! j) (map Some nblocks)"
  by (induction js) (auto simp: Let_def split: if_splits)

lemma merge_step_cases:
  "merge_step vert nblocks n bb rest = nblocks @ [bb] \<or>
   merge_step vert nblocks n bb rest = nblocks @ [bb, bb] \<or>
   (\<exists>j<length nblocks.
      \<not> (x1 (nblocks ! j) < x0 bb \<or> x1 bb < x0 (nblocks ! j)) \<and>
      can_extend vert (rect_or bb (nblocks ! j)) (nblocks ! j) (map Some nblocks) \<and>
      merge_step vert nblocks n bb rest = nblocks[j := rect_or bb (nblocks ! j)])"
proof (cases "find_merge vert bb nblocks [0..<length nblocks]")
  case None
  then show ?thesis by (simp add: merge_step_def Let_def)
next
  case (Some p)
  obtain j temp where p: "p = (j, temp)" by (cases p)
  from find_merge_Some [OF Some [unfolded p]]
  have "j < length nblocks" "temp = rect_or bb (nblocks ! j)"
    "\<not> (x1 (nblocks ! j) < x0 bb \<or> x1 bb < x0 (nblocks ! j))"
    "can_extend vert temp (nblocks ! j) (map Some nblocks)" by auto
  then show ?thesis using Some p by (auto simp: merge_step_def Let_def)
qed

lemma merge_step_built:
  assumes "\<forall>r\<in>set nblocks. built inputs r" and "bb \<in> set inputs"
  shows "\<forall>r\<in>set (merge_step vert nblocks n bb rest). built inputs r"
proof -
  have bbb: "built inputs bb" using assms(2) by (rule built.input)
  from merge_step_cases [of vert nblocks n bb rest]
  consider "merge_step vert nblocks n bb rest = nblocks @ [bb]"
    | "merge_step vert nblocks n bb rest = nblocks @ [bb, bb]"
    | j where "j < length nblocks" "\<not> (x1 (nblocks ! j) < x0 bb \<or> x1 bb < x0 (nblocks ! j))"
        "merge_step vert nblocks n bb rest = nblocks[j := rect_or bb (nblocks ! j)]"
    by blast
  then show ?thesis
  proof cases
    case 1 then show ?thesis using assms(1) bbb by simp
  next
    case 2 then show ?thesis using assms(1) bbb by simp
  next
    case 3
    have "built inputs (nblocks ! j)" using assms(1) 3(1) by simp
    then have "built inputs (rect_or bb (nblocks ! j))"
      using assms(2) 3(2) by (rule built.union)
    then show ?thesis using assms(1) 3(3) by (auto dest!: set_update_subset_insert [THEN subsetD])
  qed
qed

lemma merge_loop_built:
  "\<forall>r\<in>set nblocks. built inputs r \<Longrightarrow> set rest \<subseteq> set inputs \<Longrightarrow>
   \<forall>r\<in>set (merge_loop vert nblocks n rest). built inputs r"
proof (induction rest arbitrary: nblocks n)
  case Nil
  then show ?case by simp
next
  case (Cons bb rest)
  have "\<forall>r\<in>set (merge_step vert nblocks n bb rest). built inputs r"
    using Cons.prems by (intro merge_step_built) auto
  then show ?case using Cons.IH Cons.prems(2) by simp
qed

text \<open>
  C3: every rectangle that Column Merging returns is an input rectangle or was obtained
  from input rectangles by unions only, each of a column rectangle and an input rectangle
  whose horizontal spans overlapped when the union was taken; two rectangles with disjoint
  horizontal spans are never united.
\<close>

theorem merge_only_overlapping:
  "r \<in> set (merge_loop vert_bboxes [b0] 0 rest) \<Longrightarrow> built (b0 # rest) r"
proof -
  assume r: "r \<in> set (merge_loop vert_bboxes [b0] 0 rest)"
  have "\<forall>r\<in>set [b0]. built (b0 # rest) r" by (simp add: built.input)
  moreover have "set rest \<subseteq> set (b0 # rest)" by auto
  ultimately have "\<forall>r\<in>set (merge_loop vert_bboxes [b0] 0 rest). built (b0 # rest) r"
    by (rule merge_loop_built)
  then show ?thesis using r by blast
qed

theorem merge_only_overlapping_witness:
  "\<lparr>x0 = 0, y0 = 0, x1 = 150, y1 = 100\<rparr>
     \<in> set (merge_loop [] [\<lparr>x0 = 0, y0 = 0, x1 = 100, y1 = 50\<rparr>] 0 [\<lparr>x0 = 50, y0 = 60, x1 = 150, y1 = 100\<rparr>]) \<and>
   built [\<lparr>x0 = 0, y0 = 0, x1 = 100, y1 = 50\<rparr>, \<lparr>x0 = 50, y0 = 60, x1 = 150, y1 = 100\<rparr>]
     \<lparr>x0 = 0, y0 = 0, x1 = 150, y1 = 100\<rparr>"
proof -
  have m: "merge_loop [] [\<lparr>x0 = 0, y0 = 0, x1 = 100, y1 = 50\<rparr>] 0 [\<lparr>x0 = 50, y0 = 60, x1 = 150, y1 = 100\<rparr>]
           = [\<lparr>x0 = 0, y0 = 0, x1 = 150, y1 = 100\<rparr>]"
    by code_simp
  have r: "\<lparr>x0 = 0, y0 = 0, x1 = 150, y1 = 100\<rparr>
     \<in> set (merge_loop [] [\<lparr>x0 = 0, y0 = 0, x1 = 100, y1 = 50\<rparr>] 0 [\<lparr>x0 = 50, y0 = 60, x1 = 150, y1 = 100\<rparr>])"
    unfolding m by simp
  show ?thesis using merge_only_overlapping [OF r] r by simp
qed

text \<open>
  The predicate excludes the union across columns: from two input rectangles side by side
  nothing but the two rectangles themselves can be built.
\<close>

lemma built_side_by_side:
  "\<not> built [mk_rect 0 100 100 200, mk_rect 150 100 300 200]
       (rect_or (mk_rect 150 100 300 200) (mk_rect 0 100 100 200))"
proof
  let ?A = "mk_rect 0 100 100 200" and ?B = "mk_rect 150 100 300 200"
  have only: "built [?A, ?B] r \<Longrightarrow> r = ?A \<or> r = ?B" for r
    by (induction rule: built.induct) (auto simp: rect_or_def is_empty_def mk_rect_def)
  assume "built [?A, ?B] (rect_or ?B ?A)"
  from only [OF this] show False
    by (simp add: rect_or_def is_empty_def mk_rect_def)
qed

subsection \<open>The whole function\<close>

text \<open>
  C8: when no candidate rectangle is left after filtering and extension, and in particular
  when the page has no text block, \<^verbatim>\<open>column_boxes\<close> returns the empty list and raises
  nothing.
\<close>

theorem column_boxes_no_candidates:
  "(make_blocks no_image_text (concat (get_image_rects pg))
        (get_text pg (page_clip pg footer_margin header_margin)) ([], []) = Inr (bboxes, vert_bboxes) \<and>
    extend_right (sort_key (\<lambda>k. (y0 k, x0 k)) bboxes) (rect_width (p_rect pg))
        vert_bboxes (concat (get_image_rects pg)) = []
      \<longrightarrow> column_boxes pg footer_margin header_margin no_image_text = Inr []) \<and>
   (get_text pg (page_clip pg footer_margin header_margin) = []
      \<longrightarrow> column_boxes pg footer_margin header_margin no_image_text = Inr [])"
  by (simp add: column_boxes_def Let_def extend_right_def extend_right_loop.simps [of 0 "[]"])

theorem column_boxes_no_candidates_witness:
  "get_text \<lparr>p_rect = \<lparr>x0 = 0, y0 = 0, x1 = 400, y1 = 600\<rparr>, get_image_rects = [],
             get_text = (\<lambda>clip. [])\<rparr>
     (page_clip \<lparr>p_rect = \<lparr>x0 = 0, y0 = 0, x1 = 400, y1 = 600\<rparr>, get_image_rects = [],
             get_text = (\<lambda>clip. [])\<rparr> 50 50) = [] \<and>
   column_boxes \<lparr>p_rect = \<lparr>x0 = 0, y0 = 0, x1 = 400, y1 = 600\<rparr>, get_image_rects = [],
             get_text = (\<lambda>clip. [])\<rparr> 50 50 True = Inr []"
  using column_boxes_no_candidates [of True "\<lparr>p_rect = \<lparr>x0 = 0, y0 = 0, x1 = 400, y1 = 600\<rparr>,
     get_image_rects = [], get_text = (\<lambda>clip. [])\<rparr>" 50 50 "[]" "[]"]
  by simp

subsection \<open>Missing keys\<close>

lemma build_srect_error:
  "build_srect srect lns = Inl e \<Longrightarrow> e = KeyError ''spans''"
  by (induction lns arbitrary: srect) (auto simp: getitem_def Let_def split: option.splits)

lemma build_srect_raises:
  "line \<in> set lns \<Longrightarrow> l_spans line = None \<Longrightarrow> build_srect srect lns = Inl (KeyError ''spans'')"
  by (induction lns arbitrary: srect) (auto simp: getitem_def Let_def split: option.splits)

lemma first_line_dir_error:
  "first_line_dir b = Inl e \<Longrightarrow> e = KeyError ''lines'' \<or> e = IndexError"
  by (auto simp: first_line_dir_def getitem_def py_get_def split: option.splits if_splits)

lemma make_block_error:
  assumes "make_block no_image_text img_bboxes b st = Inl e"
  shows "e = KeyError ''lines'' \<or> e = KeyError ''spans''"
proof (cases "first_line_dir b")
  case (Inl e')
  with first_line_dir_error [OF Inl] assms show ?thesis
    by (auto simp: make_block_def Let_def split: prod.splits if_splits)
next
  case (Inr d)
  with assms show ?thesis
    by (auto simp: make_block_def Let_def getitem_def
             split: prod.splits if_splits option.splits sum.splits dest: build_srect_error)
qed

lemma make_blocks_raises:
  assumes "b \<in> set blocks"
    and "\<And>st. \<exists>e. make_block no_image_text img_bboxes b st = Inl e"
  shows "make_blocks no_image_text img_bboxes blocks st = Inl (KeyError ''lines'') \<or>
         make_blocks no_image_text img_bboxes blocks st = Inl (KeyError ''spans'')"
  using assms(1)
proof (induction blocks arbitrary: st)
  case Nil
  then show ?case by simp
next
  case (Cons b' blocks)
  show ?case
  proof (cases "make_block no_image_text img_bboxes b' st")
    case (Inl e)
    with make_block_error [OF Inl] show ?thesis by auto
  next
    case (Inr st')
    with assms(2) [of st] have "b \<noteq> b'" by auto
    with Cons.prems have "b \<in> set blocks" by simp
    from Cons.IH [OF this, of st'] Inr show ?thesis by simp
  qed
qed

lemma make_block_no_lines:
  "b_lines b = None \<Longrightarrow> \<not> (no_image_text \<and> in_bbox (b_bbox b) img_bboxes) \<Longrightarrow>
   make_block no_image_text img_bboxes b st = Inl (KeyError ''lines'')"
  by (auto simp: make_block_def first_line_dir_def getitem_def Let_def split: prod.splits)

lemma make_block_no_spans:
  assumes "b_lines b = Some (line0 # lns)" "l_dir line0 = (1, 0)"
    "line \<in> set (line0 # lns)" "l_spans line = None"
    "\<not> (no_image_text \<and> in_bbox (b_bbox b) img_bboxes)"
  shows "make_block no_image_text img_bboxes b st = Inl (KeyError ''spans'')"
proof -
  have dir: "first_line_dir b = Inr (1, 0)"
    using assms(1,2) by (simp add: first_line_dir_def getitem_def py_get_def)
  have "build_srect EMPTY_IRECT (line0 # lns) = Inl (KeyError ''spans'')"
    using assms(3,4) by (rule build_srect_raises)
  then show ?thesis
    using assms(1,5) dir by (auto simp: make_block_def Let_def getitem_def split: prod.splits)
qed

text \<open>
  C10, as the code has it: a block that is not skipped as text on an image and has no
  \<^verbatim>\<open>"lines"\<close> key, or whose first line is horizontal and one of whose lines has no
  \<^verbatim>\<open>"spans"\<close> key, makes \<^verbatim>\<open>column_boxes\<close> raise \<^verbatim>\<open>KeyError\<close> for one of the two keys.
\<close>

theorem missing_key_raises:
  assumes "b \<in> set (get_text pg (page_clip pg footer_margin header_margin))"
    and "\<not> (no_image_text \<and> in_bbox (b_bbox b) (concat (get_image_rects pg)))"
    and "b_lines b = None \<or>
         (\<exists>line0 lns line. b_lines b = Some (line0 # lns) \<and> l_dir line0 = (1, 0) \<and>
             line \<in> set (line0 # lns) \<and> l_spans line = None)"
  shows "column_boxes pg footer_margin header_margin no_image_text = Inl (KeyError ''lines'') \<or>
         column_boxes pg footer_margin header_margin no_image_text = Inl (KeyError ''spans'')"
proof -
  have "\<exists>e. make_block no_image_text (concat (get_image_rects pg)) b st = Inl e" for st
    using assms(2,3) make_block_no_lines [of b no_image_text "concat (get_image_rects pg)" st]
      make_block_no_spans [of b _ _ _ no_image_text "concat (get_image_rects pg)" st]
    by blast
  from make_blocks_raises [OF assms(1) this, of "([], [])"]
  show ?thesis by (auto simp: column_boxes_def Let_def)
qed

theorem missing_key_raises_witness:
  "\<lparr>b_bbox = mk_rect 10 110 20 120, b_lines = None\<rparr>
     \<in> set (get_text (mk_page 400 400 [] [\<lparr>b_bbox = mk_rect 10 110 20 120, b_lines = None\<rparr>])
              (page_clip (mk_page 400 400 [] [\<lparr>b_bbox = mk_rect 10 110 20 120, b_lines = None\<rparr>]) 50 50)) \<and>
   b_lines \<lparr>b_bbox = mk_rect 10 110 20 120, b_lines = None\<rparr> = None \<and>
   column_boxes (mk_page 400 400 [] [\<lparr>b_bbox = mk_rect 10 110 20 120, b_lines = None\<rparr>]) 50 50 True
     = Inl (KeyError ''lines'')"
proof -
  let ?b = "\<lparr>b_bbox = mk_rect 10 110 20 120, b_lines = None\<rparr>"
  let ?pg = "mk_page 400 400 [] [?b]"
  have h1: "?b \<in> set (get_text ?pg (page_clip ?pg 50 50))"
    by (simp add: mk_page_def)
  have h2: "\<not> (True \<and> in_bbox (b_bbox ?b) (concat (get_image_rects ?pg)))"
    by (simp add: mk_page_def)
  have h3: "b_lines ?b = None \<or>
         (\<exists>line0 lns line. b_lines ?b = Some (line0 # lns) \<and> l_dir line0 = (1, 0) \<and>
             line \<in> set (line0 # lns) \<and> l_spans line = None)"
    by simp
  have c: "column_boxes ?pg 50 50 True \<noteq> Inl (KeyError ''spans'')"
    by code_simp
  show ?thesis using missing_key_raises [OF h1 h2 h3] h1 c by simp
qed

text \<open>
  A block without \<^verbatim>\<open>"lines"\<close> that lies in an image rectangle is skipped before its lines
  are read, and a block whose first line is not horizontal is recorded as an obstacle
  without its spans being read: neither raises.
\<close>

theorem missing_key_counterexample:
  "b_lines \<lparr>b_bbox = mk_rect 10 110 20 120, b_lines = None\<rparr> = None \<and>
   column_boxes (mk_page 400 400 [[mk_rect 0 100 200 300]]
      [\<lparr>b_bbox = mk_rect 10 110 20 120, b_lines = None\<rparr>]) 50 50 True = Inr [] \<and>
   l_spans \<lparr>l_dir = (0, - 1), l_bbox = mk_rect 10 110 20 120, l_spans = None\<rparr> = None \<and>
   column_boxes (mk_page 400 400 []
      [\<lparr>b_bbox = mk_rect 10 110 20 120,
        b_lines = Some [\<lparr>l_dir = (0, - 1), l_bbox = mk_rect 10 110 20 120, l_spans = None\<rparr>]\<rparr>])
      50 50 True = Inr []"
proof -
  have "column_boxes (mk_page 400 400 [[mk_rect 0 100 200 300]]
      [\<lparr>b_bbox = mk_rect 10 110 20 120, b_lines = None\<rparr>]) 50 50 True = Inr []"
    by code_simp
  moreover have "column_boxes (mk_page 400 400 []
      [\<lparr>b_bbox = mk_rect 10 110 20 120,
        b_lines = Some [\<lparr>l_dir = (0, - 1), l_bbox = mk_rect 10 110 20 120, l_spans = None\<rparr>]\<rparr>])
      50 50 True = Inr []"
    by code_simp
  ultimately show ?thesis by simp
qed

subsection \<open>Cleaning\<close>

lemma remove_duplicates_subset:
  "remove_duplicates is nblocks = Inr r \<Longrightarrow> set r \<subseteq> set nblocks"
proof (induction "is" arbitrary: nblocks)
  case Nil
  then show ?case by simp
next
  case (Cons i "is")
  have del: "set (py_del nblocks i) \<subseteq> set nblocks"
    unfolding py_del_def using set_take_subset [of i nblocks] set_drop_subset [of "Suc i" nblocks]
    by auto
  from Cons.prems have
    "remove_duplicates is (py_del nblocks i) = Inr r \<or> remove_duplicates is nblocks = Inr r"
    by (auto split: sum.splits if_splits)
  then show ?case using Cons.IH [of "py_del nblocks i"] Cons.IH [of nblocks] del by blast
qed

lemma set_sort_slice: "set (sort_slice nblocks i0 i1) \<subseteq> set nblocks"
  unfolding sort_slice_def
  using set_take_subset [of i0 nblocks] set_drop_subset [of "Suc i1" nblocks]
    set_take_subset [of "Suc i1 - i0" "drop i0 nblocks"] set_drop_subset [of i0 nblocks]
  by auto

lemma repair_loop_subset:
  "set (fst (repair_loop i nblocks y i0 i1)) \<subseteq> set nblocks"
proof (induction i nblocks y i0 i1 rule: repair_loop.induct)
  case (1 i nblocks y i0 i1)
  show ?case
  proof (cases "i < length nblocks")
    case False
    then show ?thesis by (simp add: repair_loop.simps [of i nblocks])
  next
    case True
    show ?thesis
    proof (cases "\<bar>y1 (nblocks ! i) - y\<bar> > 10")
      case far: True
      let ?nb = "if i1 > int i0 then sort_slice nblocks i0 (nat i1) else nblocks"
      have "repair_loop i nblocks y i0 i1 = repair_loop (Suc i) ?nb (y1 (nblocks ! i)) i (int i)"
        using True far by (simp add: repair_loop.simps [of i nblocks] Let_def)
      moreover have "set (fst (repair_loop (Suc i) ?nb (y1 (nblocks ! i)) i (int i))) \<subseteq> set ?nb"
        using "1.IH"(1) [OF True refl far] by simp
      moreover have "set ?nb \<subseteq> set nblocks" using set_sort_slice by simp
      ultimately show ?thesis by simp
    next
      case near: False
      have "repair_loop i nblocks y i0 i1 = repair_loop (Suc i) nblocks y i0 (int i)"
        using True near by (simp add: repair_loop.simps [of i nblocks] Let_def)
      then show ?thesis using "1.IH"(2) [OF True refl near] by simp
    qed
  qed
qed

lemma repair_sequence_subset:
  "repair_sequence nblocks = Inr out \<Longrightarrow> set out \<subseteq> set nblocks"
proof -
  assume a: "repair_sequence nblocks = Inr out"
  then obtain b where b: "py_get nblocks 0 = Inr b"
    by (auto simp: repair_sequence_def split: sum.splits)
  obtain nb i0 i1 where l: "repair_loop 1 nblocks (y1 b) 0 (- 1) = (nb, i0, i1)"
    by (cases "repair_loop 1 nblocks (y1 b) 0 (- 1)") auto
  have nb: "set nb \<subseteq> set nblocks"
    using repair_loop_subset [of 1 nblocks "y1 b" 0 "- 1"] l by simp
  have "out = (if i1 > int i0 then sort_slice nb i0 (nat i1) else nb)"
    using a b l by (simp add: repair_sequence_def)
  then show ?thesis using nb set_sort_slice [of nb i0 "nat i1"] by (auto split: if_splits)
qed

lemma clean_nblocks_subset:
  "clean_nblocks nblocks = Inr out \<Longrightarrow> set out \<subseteq> set nblocks"
  by (auto simp: clean_nblocks_def Let_def split: if_splits sum.splits
           dest!: remove_duplicates_subset repair_sequence_subset)

lemma sort_slice_segment:
  "row \<noteq> [] \<Longrightarrow> length P = i0 \<Longrightarrow> i1 = i0 + length row \<Longrightarrow>
   sort_slice (P @ row @ rest) i0 (i1 - 1) = P @ sort_key x0 row @ rest"
  by (cases row) (auto simp: sort_slice_def)

lemma sort_key_single: "length row = 1 \<Longrightarrow> sort_key x0 row = row"
  by (cases row) auto

lemma repair_loop_rows:
  assumes "nblocks = P @ row @ rest" "length P = i0" "row \<noteq> []" "i = i0 + length row"
    and "i1 = int i - 1 \<or> (i1 = - 1 \<and> length row = 1)"
  shows "(case repair_loop i nblocks y i0 i1 of (nb, j0, j1) \<Rightarrow>
            if j1 > int j0 then sort_slice nb j0 (nat j1) else nb)
         = P @ concat (map (sort_key x0) (rows_from y row rest))"
  using assms
proof (induction rest arbitrary: nblocks P row i y i0 i1)
  case Nil
  then have len: "\<not> i < length nblocks" by simp
  have fin: "(if i1 > int i0 then sort_slice nblocks i0 (nat i1) else nblocks) = P @ sort_key x0 row"
  proof (cases "i1 > int i0")
    case True
    with Nil have i1: "nat i1 = (i0 + length row) - 1" by auto
    show ?thesis
      using True sort_slice_segment [OF Nil(3) Nil(2) refl, of "[]"] Nil(1) i1 by simp
  next
    case False
    with Nil have "length row = 1" by (cases row) auto
    then show ?thesis using False Nil(1) by (simp add: sort_key_single)
  qed
  show ?case using len fin by (simp add: repair_loop.simps [of i nblocks])
next
  case (Cons b bs)
  then have len: "i < length nblocks" and bi: "nblocks ! i = b"
    by (auto simp: nth_append)
  show ?case
  proof (cases "\<bar>y1 b - y\<bar> > 10")
    case far: True
    let ?nb = "if i1 > int i0 then sort_slice nblocks i0 (nat i1) else nblocks"
    have nb: "?nb = (P @ sort_key x0 row) @ [b] @ bs"
    proof (cases "i1 > int i0")
      case True
      with Cons.prems have i1: "nat i1 = (i0 + length row) - 1" by auto
      show ?thesis
        using True sort_slice_segment [OF Cons.prems(3) Cons.prems(2) refl, of "b # bs"]
          Cons.prems(1) i1 by simp
    next
      case False
      with Cons.prems have "length row = 1" by (cases row) auto
      then show ?thesis using False Cons.prems(1) by (simp add: sort_key_single)
    qed
    have step: "repair_loop i nblocks y i0 i1 = repair_loop (Suc i) ?nb (y1 b) i (int i)"
      using len bi far by (simp add: repair_loop.simps [of i nblocks] Let_def)
    have "(case repair_loop (Suc i) ?nb (y1 b) i (int i) of (nb, j0, j1) \<Rightarrow>
            if j1 > int j0 then sort_slice nb j0 (nat j1) else nb)
         = (P @ sort_key x0 row) @ concat (map (sort_key x0) (rows_from (y1 b) [b] bs))"
      by (rule Cons.IH [OF nb]) (use Cons.prems in auto)
    then show ?thesis using step far by simp
  next
    case near: False
    have step: "repair_loop i nblocks y i0 i1 = repair_loop (Suc i) nblocks y i0 (int i)"
      using len bi near by (simp add: repair_loop.simps [of i nblocks] Let_def)
    have "(case repair_loop (Suc i) nblocks y i0 (int i) of (nb, j0, j1) \<Rightarrow>
            if j1 > int j0 then sort_slice nb j0 (nat j1) else nb)
         = P @ concat (map (sort_key x0) (rows_from y (row @ [b]) bs))"
      by (rule Cons.IH [of nblocks P "row @ [b]"]) (use Cons.prems in auto)
    then show ?thesis using step near by simp
  qed
qed

lemma repair_sequence_rows:
  assumes "repair_sequence nblocks = Inr out"
  shows "out = concat (map (sort_key x0) (rows nblocks))"
proof (cases nblocks)
  case Nil
  with assms show ?thesis by (simp add: repair_sequence_def py_get_def)
next
  case (Cons b bs)
  have "(case repair_loop 1 nblocks (y1 b) 0 (- 1) of (nb, j0, j1) \<Rightarrow>
            if j1 > int j0 then sort_slice nb j0 (nat j1) else nb)
         = [] @ concat (map (sort_key x0) (rows_from (y1 b) [b] bs))"
    by (rule repair_loop_rows [of nblocks "[]" "[b]" bs]) (use Cons in auto)
  then show ?thesis
    using assms Cons by (auto simp: repair_sequence_def py_get_def rows_def split: prod.splits)
qed

lemma rows_from_near:
  "row \<noteq> [] \<Longrightarrow> y = y1 (hd row) \<Longrightarrow> \<forall>b\<in>set row. \<bar>y1 b - y\<bar> \<le> 10 \<Longrightarrow>
   \<forall>r\<in>set (rows_from y row bs). r \<noteq> [] \<and> (\<forall>b\<in>set r. \<bar>y1 b - y1 (hd r)\<bar> \<le> 10)"
proof (induction bs arbitrary: y row)
  case Nil
  then show ?case by simp
next
  case (Cons b bs)
  show ?case
  proof (cases "\<bar>y1 b - y\<bar> > 10")
    case True
    have "\<forall>r\<in>set (rows_from (y1 b) [b] bs). r \<noteq> [] \<and> (\<forall>b\<in>set r. \<bar>y1 b - y1 (hd r)\<bar> \<le> 10)"
      by (rule Cons.IH) auto
    then show ?thesis using True Cons.prems by simp
  next
    case False
    have "\<forall>r\<in>set (rows_from y (row @ [b]) bs). r \<noteq> [] \<and> (\<forall>b\<in>set r. \<bar>y1 b - y1 (hd r)\<bar> \<le> 10)"
      by (rule Cons.IH) (use False Cons.prems in auto)
    then show ?thesis using False by simp
  qed
qed

lemma concat_rows_from: "concat (rows_from y row bs) = row @ bs"
  by (induction bs arbitrary: y row) auto

lemma rows_facts:
  "concat (rows d) = d \<and>
   (\<forall>row\<in>set (rows d). row \<noteq> [] \<and> (\<forall>b\<in>set row. \<bar>y1 b - y1 (hd row)\<bar> \<le> 10) \<and>
       sorted (map x0 (sort_key x0 row)))"
proof (cases d)
  case Nil
  then show ?thesis by (simp add: rows_def)
next
  case (Cons b bs)
  have "\<forall>r\<in>set (rows_from (y1 b) [b] bs). r \<noteq> [] \<and> (\<forall>b\<in>set r. \<bar>y1 b - y1 (hd r)\<bar> \<le> 10)"
    by (rule rows_from_near) auto
  then show ?thesis using Cons by (simp add: rows_def concat_rows_from)
qed

text \<open>
  C4, as the code has it: the result of \<^verbatim>\<open>clean_nblocks\<close> is the list left by the removal
  of duplicates, cut into its rows, each row sorted by \<open>x0\<close> (stably). A row is a run of
  consecutive rectangles whose bottoms differ by at most 10 from the bottom of the run's
  first rectangle; the rows in their order make up the list. So two rectangles of one row
  come out in ascending order of \<open>x0\<close>, and rectangles of different rows keep the order of
  their rows.
\<close>

theorem clean_nblocks_rows:
  assumes "clean_nblocks nblocks = Inr out"
  shows "\<exists>d. (if length nblocks < 2 then d = nblocks
               else remove_duplicates (rev [0..<length nblocks]) nblocks = Inr d) \<and>
              out = concat (map (sort_key x0) (rows d)) \<and>
              concat (rows d) = d \<and>
              (\<forall>row\<in>set (rows d). row \<noteq> [] \<and> (\<forall>b\<in>set row. \<bar>y1 b - y1 (hd row)\<bar> \<le> 10) \<and>
                  sorted (map x0 (sort_key x0 row)))"
proof (cases "length nblocks < 2")
  case True
  then have "nblocks = [] \<or> (\<exists>b. nblocks = [b])"
    by (cases nblocks) (auto simp: less_Suc_eq_0_disj numeral_2_eq_2)
  then have "nblocks = concat (map (sort_key x0) (rows nblocks))"
    by (auto simp: rows_def)
  moreover have "out = nblocks" using assms True by (simp add: clean_nblocks_def)
  ultimately show ?thesis using True rows_facts [of nblocks] by auto
next
  case False
  with assms obtain d where d: "remove_duplicates (rev [0..<length nblocks]) nblocks = Inr d"
    and r: "repair_sequence d = Inr out"
    by (auto simp: clean_nblocks_def Let_def split: sum.splits)
  from repair_sequence_rows [OF r] d False rows_facts [of d] show ?thesis by auto
qed

theorem clean_nblocks_rows_witness:
  "clean_nblocks [mk_rect 100 0 200 50, mk_rect 0 0 50 55, mk_rect 0 100 50 200]
     = Inr [mk_rect 0 0 50 55, mk_rect 100 0 200 50, mk_rect 0 100 50 200] \<and>
   rows [mk_rect 100 0 200 50, mk_rect 0 0 50 55, mk_rect 0 100 50 200]
     = [[mk_rect 100 0 200 50, mk_rect 0 0 50 55], [mk_rect 0 100 50 200]] \<and>
   (\<exists>d. [mk_rect 0 0 50 55, mk_rect 100 0 200 50, mk_rect 0 100 50 200]
          = concat (map (sort_key x0) (rows d)) \<and> concat (rows d) = d)"
proof -
  have c: "clean_nblocks [mk_rect 100 0 200 50, mk_rect 0 0 50 55, mk_rect 0 100 50 200]
     = Inr [mk_rect 0 0 50 55, mk_rect 100 0 200 50, mk_rect 0 100 50 200]"
    by code_simp
  have r: "rows [mk_rect 100 0 200 50, mk_rect 0 0 50 55, mk_rect 0 100 50 200]
     = [[mk_rect 100 0 200 50, mk_rect 0 0 50 55], [mk_rect 0 100 50 200]]"
    by code_simp
  show ?thesis using clean_nblocks_rows [OF c] c r by blast
qed

text \<open>
  Three blocks in three columns: the first and the last rectangle of the result have the
  same bottom, the last has the smaller \<open>x0\<close>, and it comes after the first, a rectangle
  with another bottom lying between them.
\<close>

theorem sort_by_left_counterexample:
  "column_boxes (mk_page 400 600 []
      [mk_block (1, 0) (mk_rect 200 100 300 200) ''ab'',
       mk_block (1, 0) (mk_rect 100 110 150 400) ''ab'',
       mk_block (1, 0) (mk_rect 0 120 50 200) ''ab'']) 50 50 True
     = Inr [mk_rect 200 100 400 200, mk_rect 100 110 150 400, mk_rect 0 120 50 200] \<and>
   \<bar>y1 (mk_rect 200 100 400 200) - y1 (mk_rect 0 120 50 200)\<bar> \<le> 10 \<and>
   x0 (mk_rect 0 120 50 200) < x0 (mk_rect 200 100 400 200)"
proof -
  have "column_boxes (mk_page 400 600 []
      [mk_block (1, 0) (mk_rect 200 100 300 200) ''ab'',
       mk_block (1, 0) (mk_rect 100 110 150 400) ''ab'',
       mk_block (1, 0) (mk_rect 0 120 50 200) ''ab'']) 50 50 True
     = Inr [mk_rect 200 100 400 200, mk_rect 100 110 150 400, mk_rect 0 120 50 200]"
    by code_simp
  then show ?thesis by (simp add: mk_rect_def)
qed

text \<open>
  C6: the loop that removes duplicates also visits the index 0, where the predecessor
  \<^verbatim>\<open>nblocks[i - 1]\<close> is the last entry of the list. With a vertical-text rectangle
  \<open>(0, 100, 50, 150)\<close> and the three blocks \<open>A = (0, 100, 10, 110)\<close>, \<open>B = (0, 100, 5, 105)\<close>, \<open>A\<close>,
  merging leaves \<open>[A, B, B, A, A]\<close>; the loop returns \<open>[B, A]\<close>, the first \<open>A\<close> being deleted
  for being equal to the last entry. With two equal blocks merging leaves \<open>[A, A, A]\<close>, every
  entry is deleted, and reading the first entry of the empty list raises \<^verbatim>\<open>IndexError\<close>.
\<close>

theorem remove_duplicates_wraps_around:
  "merge_loop [mk_rect 0 100 50 150] [mk_rect 0 100 10 110] 0 [mk_rect 0 100 5 105, mk_rect 0 100 10 110]
     = [mk_rect 0 100 10 110, mk_rect 0 100 5 105, mk_rect 0 100 5 105, mk_rect 0 100 10 110, mk_rect 0 100 10 110] \<and>
   remove_duplicates (rev [0..<5])
     [mk_rect 0 100 10 110, mk_rect 0 100 5 105, mk_rect 0 100 5 105, mk_rect 0 100 10 110, mk_rect 0 100 10 110]
     = Inr [mk_rect 0 100 5 105, mk_rect 0 100 10 110] \<and>
   column_boxes (mk_page 200 400 []
      [mk_block (0, - 1) (mk_rect 0 100 50 150) ''ab'',
       mk_block (1, 0) (mk_rect 0 100 10 110) ''ab'',
       mk_block (1, 0) (mk_rect 0 100 5 105) ''ab'',
       mk_block (1, 0) (mk_rect 0 100 10 110) ''ab'']) 50 50 True
     = Inr [mk_rect 0 100 5 105, mk_rect 0 100 10 110] \<and>
   remove_duplicates (rev [0..<3]) [mk_rect 0 100 10 110, mk_rect 0 100 10 110, mk_rect 0 100 10 110] = Inr [] \<and>
   column_boxes (mk_page 200 400 []
      [mk_block (0, - 1) (mk_rect 0 100 50 150) ''ab'',
       mk_block (1, 0) (mk_rect 0 100 10 110) ''ab'',
       mk_block (1, 0) (mk_rect 0 100 10 110) ''ab'']) 50 50 True
     = Inl IndexError"
  by code_simp

subsection \<open>Obstacles\<close>

lemma merge_step_keeps:
  assumes "\<forall>r\<in>set nblocks. r \<in> C \<or> \<not> intersects_bboxes r vert" and "bb \<in> C"
  shows "\<forall>r\<in>set (merge_step vert nblocks n bb rest). r \<in> C \<or> \<not> intersects_bboxes r vert"
proof -
  from merge_step_cases [of vert nblocks n bb rest]
  consider "merge_step vert nblocks n bb rest = nblocks @ [bb]"
    | "merge_step vert nblocks n bb rest = nblocks @ [bb, bb]"
    | j where "j < length nblocks"
        "can_extend vert (rect_or bb (nblocks ! j)) (nblocks ! j) (map Some nblocks)"
        "merge_step vert nblocks n bb rest = nblocks[j := rect_or bb (nblocks ! j)]"
    by blast
  then show ?thesis
  proof cases
    case 1 then show ?thesis using assms by simp
  next
    case 2 then show ?thesis using assms by simp
  next
    case 3
    from 3(1) have "map Some nblocks \<noteq> []" by auto
    with 3(2) have "\<not> intersects_bboxes (rect_or bb (nblocks ! j)) vert"
      unfolding can_extend_char by blast
    then show ?thesis using assms(1) 3(3) by (auto dest!: set_update_subset_insert [THEN subsetD])
  qed
qed

lemma merge_loop_keeps:
  "\<forall>r\<in>set nblocks. r \<in> C \<or> \<not> intersects_bboxes r vert \<Longrightarrow> set rest \<subseteq> C \<Longrightarrow>
   \<forall>r\<in>set (merge_loop vert nblocks n rest). r \<in> C \<or> \<not> intersects_bboxes r vert"
proof (induction rest arbitrary: nblocks n)
  case Nil
  then show ?case by simp
next
  case (Cons bb rest)
  have "\<forall>r\<in>set (merge_step vert nblocks n bb rest). r \<in> C \<or> \<not> intersects_bboxes r vert"
    using Cons.prems by (intro merge_step_keeps) auto
  then show ?case using Cons.IH Cons.prems(2) by simp
qed

lemma extend_right_obstacles:
  assumes "e \<in> set (extend_right bboxes width vert img)"
  shows "e \<in> set bboxes \<or> (\<not> intersects_bboxes e vert \<and> \<not> intersects_bboxes e img)"
proof -
  let ?res = "extend_right_loop 0 bboxes width vert img"
  from assms obtain k where k: "k < length ?res" "?res ! k = e"
    unfolding extend_right_def in_set_conv_nth by blast
  from extend_right_loop_frame [of 0 bboxes width vert img] k
  have "k < length bboxes"
    "e = bboxes ! k \<or> \<not> intersects_bboxes e (vert @ img)" by auto
  then show ?thesis by (auto simp: intersects_bboxes_append)
qed

text \<open>
  C2, as the code has it: every rectangle of the result is a candidate rectangle as
  filtering produced it, or has an empty intersection with every vertical-text rectangle
  and, when it is one of the rectangles that Right Extension delivered, with every image
  rectangle too; and every rectangle after Right Extension is such an unchanged candidate,
  or has an empty intersection with every vertical-text rectangle and every image
  rectangle.
\<close>

theorem obstacles_respected:
  assumes "make_blocks no_image_text (concat (get_image_rects pg))
             (get_text pg (page_clip pg footer_margin header_margin)) ([], []) = Inr (bboxes, vert_bboxes)"
    and "column_boxes pg footer_margin header_margin no_image_text = Inr out"
  shows "(\<forall>r\<in>set out. r \<in> set bboxes \<or>
            (\<not> intersects_bboxes r vert_bboxes \<and>
             (r \<in> set (extend_right (sort_key (\<lambda>k. (y0 k, x0 k)) bboxes)
                        (rect_width (p_rect pg)) vert_bboxes (concat (get_image_rects pg)))
              \<longrightarrow> \<not> intersects_bboxes r (concat (get_image_rects pg))))) \<and>
         (\<forall>e\<in>set (extend_right (sort_key (\<lambda>k. (y0 k, x0 k)) bboxes)
                     (rect_width (p_rect pg)) vert_bboxes (concat (get_image_rects pg))).
             e \<in> set bboxes \<or>
             (\<not> intersects_bboxes e vert_bboxes \<and>
              \<not> intersects_bboxes e (concat (get_image_rects pg))))"
proof -
  let ?img = "concat (get_image_rects pg)"
  let ?ext = "extend_right (sort_key (\<lambda>k. (y0 k, x0 k)) bboxes)
                (rect_width (p_rect pg)) vert_bboxes ?img"
  have ext: "\<forall>e\<in>set ?ext. e \<in> set bboxes \<or>
               (\<not> intersects_bboxes e vert_bboxes \<and> \<not> intersects_bboxes e ?img)"
    using extend_right_obstacles [of _ "sort_key (\<lambda>k. (y0 k, x0 k)) bboxes"
        "rect_width (p_rect pg)" vert_bboxes ?img]
    by auto
  have out: "\<forall>r\<in>set out. r \<in> set bboxes \<or> \<not> intersects_bboxes r vert_bboxes"
  proof (cases ?ext)
    case Nil
    with assms have "out = []" by (simp add: column_boxes_def Let_def)
    then show ?thesis by simp
  next
    case (Cons b0 rest)
    with assms have c: "clean_nblocks (merge_loop vert_bboxes [b0] 0 rest) = Inr out"
      by (simp add: column_boxes_def Let_def)
    have "\<forall>r\<in>set [b0]. r \<in> set bboxes \<or> \<not> intersects_bboxes r vert_bboxes"
      using ext Cons by auto
    moreover have "\<forall>r\<in>set rest. r \<in> set bboxes \<or> \<not> intersects_bboxes r vert_bboxes"
      using ext Cons by auto
    ultimately have "\<forall>r\<in>set (merge_loop vert_bboxes [b0] 0 rest).
        r \<in> set bboxes \<or> \<not> intersects_bboxes r vert_bboxes"
      using merge_loop_keeps [of "[b0]" "{r. r \<in> set bboxes \<or> \<not> intersects_bboxes r vert_bboxes}"
          vert_bboxes rest 0]
      by auto
    then show ?thesis using clean_nblocks_subset [OF c] by blast
  qed
  show ?thesis using out ext by blast
qed

theorem obstacles_respected_witness:
  "make_blocks True [mk_rect 0 400 50 450]
      [mk_block (1, 0) (mk_rect 0 100 100 200) ''abc'',
       mk_block (1, 0) (mk_rect 150 100 300 200) ''abc'',
       mk_block (0, - 1) (mk_rect 350 300 380 400) ''abc''] ([], [])
     = Inr ([mk_rect 0 100 100 200, mk_rect 150 100 300 200], [mk_rect 350 300 380 400]) \<and>
   column_boxes (mk_page 400 600 [[mk_rect 0 400 50 450]]
      [mk_block (1, 0) (mk_rect 0 100 100 200) ''abc'',
       mk_block (1, 0) (mk_rect 150 100 300 200) ''abc'',
       mk_block (0, - 1) (mk_rect 350 300 380 400) ''abc'']) 50 50 True
     = Inr [mk_rect 0 100 100 200, mk_rect 150 100 400 200] \<and>
   mk_rect 150 100 400 200 \<notin> set [mk_rect 0 100 100 200, mk_rect 150 100 300 200] \<and>
   \<not> intersects_bboxes (mk_rect 150 100 400 200) [mk_rect 350 300 380 400] \<and>
   \<not> intersects_bboxes (mk_rect 150 100 400 200) [mk_rect 0 400 50 450]"
proof -
  let ?blocks = "[mk_block (1, 0) (mk_rect 0 100 100 200) ''abc'',
       mk_block (1, 0) (mk_rect 150 100 300 200) ''abc'',
       mk_block (0, - 1) (mk_rect 350 300 380 400) ''abc'']"
  let ?pg = "mk_page 400 600 [[mk_rect 0 400 50 450]] ?blocks"
  have m: "make_blocks True [mk_rect 0 400 50 450] ?blocks ([], [])
     = Inr ([mk_rect 0 100 100 200, mk_rect 150 100 300 200], [mk_rect 350 300 380 400])"
    by code_simp
  have h1: "make_blocks True (concat (get_image_rects ?pg))
      (get_text ?pg (page_clip ?pg 50 50)) ([], [])
     = Inr ([mk_rect 0 100 100 200, mk_rect 150 100 300 200], [mk_rect 350 300 380 400])"
    using m by (simp add: mk_page_def)
  have h2: "column_boxes ?pg 50 50 True = Inr [mk_rect 0 100 100 200, mk_rect 150 100 400 200]"
    by code_simp
  have n: "mk_rect 150 100 400 200 \<notin> set [mk_rect 0 100 100 200, mk_rect 150 100 300 200]"
    by (simp add: mk_rect_def)
  have e: "extend_right (sort_key (\<lambda>k. (y0 k, x0 k)) [mk_rect 0 100 100 200, mk_rect 150 100 300 200])
             (rect_width (p_rect ?pg)) [mk_rect 350 300 380 400] (concat (get_image_rects ?pg))
           = [mk_rect 0 100 100 200, mk_rect 150 100 400 200]"
    by code_simp
  have i: "concat (get_image_rects ?pg) = [mk_rect 0 400 50 450]"
    by (simp add: mk_page_def)
  have mem: "mk_rect 150 100 400 200 \<in> set [mk_rect 0 100 100 200, mk_rect 150 100 400 200]"
    by simp
  have inext: "mk_rect 150 100 400 200
      \<in> set (extend_right (sort_key (\<lambda>k. (y0 k, x0 k)) [mk_rect 0 100 100 200, mk_rect 150 100 300 200])
             (rect_width (p_rect ?pg)) [mk_rect 350 300 380 400] (concat (get_image_rects ?pg)))"
    unfolding e by simp
  from obstacles_respected [OF h1 h2] mem n inext
  have "\<not> intersects_bboxes (mk_rect 150 100 400 200) [mk_rect 350 300 380 400] \<and>
        \<not> intersects_bboxes (mk_rect 150 100 400 200) (concat (get_image_rects ?pg))"
    by blast
  then have r: "\<not> intersects_bboxes (mk_rect 150 100 400 200) [mk_rect 350 300 380 400] \<and>
        \<not> intersects_bboxes (mk_rect 150 100 400 200) [mk_rect 0 400 50 450]"
    unfolding i .
  show ?thesis using m h2 n r by blast
qed

text \<open>
  A candidate that overlaps an image rectangle without lying in it, or that overlaps a
  vertical-text rectangle, is not extended and stays in the result as it is. And two
  candidates above and below an image rectangle are united by Column Merging, which tests
  the union against the vertical-text rectangles only: the union \<open>(0, 100, 400, 260)\<close>
  is no candidate and contains the image rectangle \<open>(0, 160, 100, 200)\<close>.
\<close>

theorem obstacles_respected_counterexample:
  "column_boxes (mk_page 400 600 [[mk_rect 50 150 200 300]]
      [mk_block (1, 0) (mk_rect 0 100 100 200) ''ab'']) 50 50 True = Inr [mk_rect 0 100 100 200] \<and>
   intersects_bboxes (mk_rect 0 100 100 200) [mk_rect 50 150 200 300] \<and>
   make_blocks True []
      [mk_block (1, 0) (mk_rect 0 100 100 200) ''ab'',
       mk_block (0, - 1) (mk_rect 50 150 150 250) ''ab''] ([], [])
     = Inr ([mk_rect 0 100 100 200], [mk_rect 50 150 150 250]) \<and>
   column_boxes (mk_page 400 600 []
      [mk_block (1, 0) (mk_rect 0 100 100 200) ''ab'',
       mk_block (0, - 1) (mk_rect 50 150 150 250) ''ab'']) 50 50 True = Inr [mk_rect 0 100 100 200] \<and>
   intersects_bboxes (mk_rect 0 100 100 200) [mk_rect 50 150 150 250] \<and>
   make_blocks True [mk_rect 0 160 100 200]
      [mk_block (1, 0) (mk_rect 0 100 300 150) ''ab'',
       mk_block (1, 0) (mk_rect 0 210 300 260) ''ab''] ([], [])
     = Inr ([mk_rect 0 100 300 150, mk_rect 0 210 300 260], []) \<and>
   column_boxes (mk_page 400 600 [[mk_rect 0 160 100 200]]
      [mk_block (1, 0) (mk_rect 0 100 300 150) ''ab'',
       mk_block (1, 0) (mk_rect 0 210 300 260) ''ab'']) 50 50 True = Inr [mk_rect 0 100 400 260] \<and>
   intersects_bboxes (mk_rect 0 100 400 260) [mk_rect 0 160 100 200]"
  by code_simp

end
